theory Spec2Isabelle
  imports Main "HOL-Library.Char_ord" "HOL-Library.List_Lexorder" "HOL-Library.Multiset"
begin

unbundle bit_operations_syntax

section \<open>JavaScript values\<close>

text \<open>
  The two utilities of the runtime package, \<^verbatim>\<open>utils/idempotency.ts\<close> and
  \<^verbatim>\<open>utils/metadata.ts\<close>, work on untyped JavaScript data (\<^verbatim>\<open>params: any\<close>, and metadata
  values that are only strings as far as the erased TypeScript types go). The values are
  the acyclic ones built from \<^verbatim>\<open>undefined\<close>, \<^verbatim>\<open>null\<close>, booleans, integer-valued
  numbers, strings, arrays and plain objects. A string is a list of code units; the
  characters of \<^typ>\<open>string\<close> stand for the code units \<open>0..255\<close>, so \<^const>\<open>length\<close> is
  the \<^verbatim>\<open>.length\<close> of the source and \<^const>\<open>take\<close> is \<^verbatim>\<open>substring(0, n)\<close>. An object is the
  list of its own properties in the order in which \<^verbatim>\<open>Object.keys\<close>, \<^verbatim>\<open>Object.entries\<close> and
  \<^verbatim>\<open>JSON.stringify\<close> enumerate them.
\<close>

datatype jsval =
    JUndefined
  | JNull
  | JBool bool
  | JNum int
  | JStr string
  | JArr "jsval list"
  | JObj "(string \<times> jsval) list"

type_synonym 'a props = "(string \<times> 'a) list"

datatype error = TypeError

subsection \<open>Numbers as strings\<close>

fun show_nat :: "nat \<Rightarrow> string" where
  "show_nat n =
     (if n < 10 then [''0123456789'' ! n]
      else show_nat (n div 10) @ [''0123456789'' ! (n mod 10)])"

declare show_nat.simps [simp del]

definition show_int :: "int \<Rightarrow> string" where
  "show_int i = (if i < 0 then CHR ''-'' # show_nat (nat (- i)) else show_nat (nat i))"

definition dec_val :: "string \<Rightarrow> nat" where
  "dec_val k = foldl (\<lambda>n c. 10 * n + (of_char c - 48)) 0 k"

subsection \<open>Property order of an ordinary object\<close>

text \<open>
  An ordinary object enumerates its own string keys with the array indices first, in
  ascending numeric order, and then the other keys in the order in which they were
  created. An array index is a key that is the decimal numeral of an integer below
  \<open>2\<^sup>3\<^sup>2 - 1\<close>: printing its value gives the key back. Assigning to an existing key
  keeps its place.
\<close>

definition is_array_index :: "string \<Rightarrow> bool" where
  "is_array_index k \<longleftrightarrow> dec_val k < 4294967295 \<and> show_nat (dec_val k) = k"

fun insert_index :: "string \<Rightarrow> 'a \<Rightarrow> 'a props \<Rightarrow> 'a props" where
  "insert_index k v [] = [(k, v)]"
| "insert_index k v ((k', v') # ps) =
     (if is_array_index k' \<and> dec_val k' < dec_val k
      then (k', v') # insert_index k v ps
      else (k, v) # (k', v') # ps)"

fun replace_value :: "string \<Rightarrow> 'a \<Rightarrow> 'a props \<Rightarrow> 'a props" where
  "replace_value k v [] = []"
| "replace_value k v ((k', v') # ps) =
     (if k' = k then (k', v) else (k', v')) # replace_value k v ps"

text \<open>\<^verbatim>\<open>obj[key] = value\<close>\<close>

definition obj_set :: "'a props \<Rightarrow> string \<Rightarrow> 'a \<Rightarrow> 'a props" where
  "obj_set ps k v =
     (if k \<in> set (map fst ps) then replace_value k v ps
      else if is_array_index k then insert_index k v ps
      else ps @ [(k, v)])"

text \<open>\<^verbatim>\<open>obj[key]\<close>, which is \<^verbatim>\<open>undefined\<close> for a key the object does not have.\<close>

definition get_prop :: "jsval props \<Rightarrow> string \<Rightarrow> jsval" where
  "get_prop ps k = (case map_of ps k of None \<Rightarrow> JUndefined | Some v \<Rightarrow> v)"

text \<open>\<^verbatim>\<open>Object.fromEntries(entries)\<close> and \<^verbatim>\<open>Object.assign(target, source)\<close>\<close>

definition fromEntries :: "'a props \<Rightarrow> 'a props" where
  "fromEntries entries = fold (\<lambda>(k, v) obj. obj_set obj k v) entries []"


section \<open>Key derivation (utils/idempotency.ts)\<close>

subsection \<open>sortObjectKeys\<close>

lemma size_get_prop [termination_simp]:
  "size (get_prop ps k) < Suc (size_list (\<lambda>x. Suc (size (snd x))) ps)"
  by (induction ps) (auto simp: get_prop_def)

text \<open>
  \<^verbatim>\<open>
  function sortObjectKeys(obj: any): any {
    if (obj === null || typeof obj !== 'object') { return obj; }
    if (Array.isArray(obj)) { return obj.map(sortObjectKeys); }
    const sorted: any = {};
    Object.keys(obj).sort().forEach(key => { sorted[key] = sortObjectKeys(obj[key]); });
    return sorted;
  }
  \<close>
  The default \<^verbatim>\<open>sort()\<close> compares strings by code units, which is the lexicographic
  order of \<^typ>\<open>string\<close>.
\<close>

fun sortObjectKeys :: "jsval \<Rightarrow> jsval" where
  "sortObjectKeys (JArr xs) = JArr (map sortObjectKeys xs)"
| "sortObjectKeys (JObj ps) =
     JObj (fold (\<lambda>key sorted. obj_set sorted key (sortObjectKeys (get_prop ps key)))
             (sort (map fst ps)) [])"
| "sortObjectKeys obj = obj"

subsection \<open>JSON.stringify\<close>

definition hex_digit :: "nat \<Rightarrow> char" where
  "hex_digit d = ''0123456789abcdef'' ! d"

definition escape_unit :: "char \<Rightarrow> string" where
  "escape_unit c =
     (let n = of_char c :: nat
      in if n = 34 then [CHR 0x5C, CHR 0x22]
         else if n = 92 then [CHR 0x5C, CHR 0x5C]
         else if n = 8 then [CHR 0x5C, CHR ''b'']
         else if n = 9 then [CHR 0x5C, CHR ''t'']
         else if n = 10 then [CHR 0x5C, CHR ''n'']
         else if n = 12 then [CHR 0x5C, CHR ''f'']
         else if n = 13 then [CHR 0x5C, CHR ''r'']
         else if n < 32 then CHR 0x5C # ''u00'' @ [hex_digit (n div 16), hex_digit (n mod 16)]
         else [c])"

definition quote :: "string \<Rightarrow> string" where
  "quote s = CHR 0x22 # concat (map escape_unit s) @ [CHR 0x22]"

fun join :: "string \<Rightarrow> string list \<Rightarrow> string" where
  "join sep [] = []"
| "join sep [x] = x"
| "join sep (x # y # ys) = x @ sep @ join sep (y # ys)"

text \<open>
  \<^verbatim>\<open>JSON.stringify(value)\<close> with no replacer and no indentation. The result is
  \<^verbatim>\<open>undefined\<close> (here \<^const>\<open>None\<close>) for \<^verbatim>\<open>undefined\<close>; inside an array \<^verbatim>\<open>undefined\<close>
  is written \<^verbatim>\<open>null\<close>, and a property whose value is \<^verbatim>\<open>undefined\<close> is left out.
\<close>

fun JSON_stringify :: "jsval \<Rightarrow> string option" where
  "JSON_stringify JUndefined = None"
| "JSON_stringify JNull = Some ''null''"
| "JSON_stringify (JBool b) = Some (if b then ''true'' else ''false'')"
| "JSON_stringify (JNum n) = Some (show_int n)"
| "JSON_stringify (JStr s) = Some (quote s)"
| "JSON_stringify (JArr xs) =
     Some (''['' @ join '','' (map (\<lambda>x. case JSON_stringify x of None \<Rightarrow> ''null'' | Some s \<Rightarrow> s) xs)
           @ '']'')"
| "JSON_stringify (JObj ps) =
     Some (''{'' @ join '',''
             (concat (map (\<lambda>(k, v). case JSON_stringify v of None \<Rightarrow> []
                                    | Some s \<Rightarrow> [quote k @ '':'' @ s]) ps))
           @ ''}'')"

text \<open>A value inside a template literal: \<^verbatim>\<open>`${x}`\<close>.\<close>

definition template :: "string option \<Rightarrow> string" where
  "template x = (case x of None \<Rightarrow> ''undefined'' | Some s \<Rightarrow> s)"

subsection \<open>SHA-256\<close>

text \<open>
  \<^verbatim>\<open>createHash('sha256').update(s).digest('hex')\<close> of Node's \<^verbatim>\<open>crypto\<close> module: the
  SHA-256 of FIPS 180-4 over the UTF-8 bytes of \<open>s\<close>, printed as 64 lowercase hexadecimal
  digits. Bytes and 32-bit words are integers, with the wrap-around written out.
\<close>

definition utf8 :: "string \<Rightarrow> int list" where
  "utf8 s = concat (map (\<lambda>c. let n = of_char c :: int
                             in if n < 128 then [n] else [192 + n div 64, 128 + n mod 64]) s)"

definition add32 :: "int \<Rightarrow> int \<Rightarrow> int" where
  "add32 a b = (a + b) mod 4294967296"

definition rotr :: "nat \<Rightarrow> int \<Rightarrow> int" where
  "rotr n x = (x div 2 ^ n) OR ((x * 2 ^ (32 - n)) mod 4294967296)"

definition Ch :: "int \<Rightarrow> int \<Rightarrow> int \<Rightarrow> int" where
  "Ch x y z = (x AND y) XOR ((4294967295 - x) AND z)"

definition Maj :: "int \<Rightarrow> int \<Rightarrow> int \<Rightarrow> int" where
  "Maj x y z = (x AND y) XOR (x AND z) XOR (y AND z)"

definition Sigma0 :: "int \<Rightarrow> int" where
  "Sigma0 x = rotr 2 x XOR rotr 13 x XOR rotr 22 x"

definition Sigma1 :: "int \<Rightarrow> int" where
  "Sigma1 x = rotr 6 x XOR rotr 11 x XOR rotr 25 x"

definition sigma0 :: "int \<Rightarrow> int" where
  "sigma0 x = rotr 7 x XOR rotr 18 x XOR (x div 8)"

definition sigma1 :: "int \<Rightarrow> int" where
  "sigma1 x = rotr 17 x XOR rotr 19 x XOR (x div 1024)"

definition K256 :: "int list" where
  "K256 =
    [1116352408, 1899447441, 3049323471, 3921009573, 961987163, 1508970993,
     2453635748, 2870763221, 3624381080, 310598401, 607225278, 1426881987,
     1925078388, 2162078206, 2614888103, 3248222580, 3835390401, 4022224774,
     264347078, 604807628, 770255983, 1249150122, 1555081692, 1996064986,
     2554220882, 2821834349, 2952996808, 3210313671, 3336571891, 3584528711,
     113926993, 338241895, 666307205, 773529912, 1294757372, 1396182291,
     1695183700, 1986661051, 2177026350, 2456956037, 2730485921, 2820302411,
     3259730800, 3345764771, 3516065817, 3600352804, 4094571909, 275423344,
     430227734, 506948616, 659060556, 883997877, 958139571, 1322822218,
     1537002063, 1747873779, 1955562222, 2024104815, 2227730452, 2361852424,
     2428436474, 2756734187, 3204031479, 3329325298]"

definition H256 :: "int list" where
  "H256 = [1779033703, 3144134277, 1013904242, 2773480762,
           1359893119, 2600822924, 528734635, 1541459225]"

text \<open>The message schedule, newest word first.\<close>

fun schedule :: "nat \<Rightarrow> int list \<Rightarrow> int list" where
  "schedule 0 ws = ws"
| "schedule (Suc n) ws =
     schedule n
       (add32 (add32 (add32 (sigma1 (ws ! 1)) (ws ! 6)) (sigma0 (ws ! 14))) (ws ! 15) # ws)"

fun round256 :: "int list \<Rightarrow> int \<times> int \<Rightarrow> int list" where
  "round256 [a, b, c, d, e, f, g, h] (k, w) =
     (let t1 = add32 (add32 (add32 (add32 h (Sigma1 e)) (Ch e f g)) k) w;
          t2 = add32 (Sigma0 a) (Maj a b c)
      in [add32 t1 t2, a, b, c, add32 d t1, e, f, g])"
| "round256 st _ = st"

definition compress :: "int list \<Rightarrow> int list \<Rightarrow> int list" where
  "compress st block =
     map2 add32 st (foldl round256 st (zip K256 (rev (schedule 48 (rev block)))))"

fun be32 :: "int list \<Rightarrow> int list" where
  "be32 (a # b # c # d # rest) = (((a * 256 + b) * 256 + c) * 256 + d) # be32 rest"
| "be32 _ = []"

definition pad :: "int list \<Rightarrow> int list" where
  "pad bs =
     (let n = length bs
      in bs @ [128] @ replicate ((119 - n mod 64) mod 64) 0 @
         map (\<lambda>i. (int (8 * n) div 256 ^ i) mod 256) [7, 6, 5, 4, 3, 2, 1, 0])"

fun hash_blocks :: "int list \<Rightarrow> int list \<Rightarrow> int list" where
  "hash_blocks st [] = st"
| "hash_blocks st bs = hash_blocks (compress st (be32 (take 64 bs))) (drop 64 bs)"

definition hex32 :: "int \<Rightarrow> string" where
  "hex32 w = map (\<lambda>i. hex_digit (nat ((w div 16 ^ i) mod 16))) [7, 6, 5, 4, 3, 2, 1, 0]"

definition sha256_hex :: "string \<Rightarrow> string" where
  "sha256_hex s = concat (map hex32 (hash_blocks H256 (pad (utf8 s))))"

subsection \<open>generateIdempotencyKey\<close>

text \<open>
  \<^verbatim>\<open>
  export function generateIdempotencyKey(operation: string, params: any): string {
    const sortedParams = sortObjectKeys(params);
    const paramsString = JSON.stringify(sortedParams);
    const hash = createHash('sha256')
      .update(`${operation}:${paramsString}`)
      .digest('hex')
      .substring(0, 32);
    return `${operation}-${hash}`;
  }
  \<close>
\<close>

definition generateIdempotencyKey :: "string \<Rightarrow> jsval \<Rightarrow> string" where
  "generateIdempotencyKey operation params =
     (let sortedParams = sortObjectKeys params;
          paramsString = JSON_stringify sortedParams;
          hash = take 32 (sha256_hex (operation @ '':'' @ template paramsString))
      in operation @ ''-'' @ hash)"

section \<open>Metadata (utils/metadata.ts)\<close>

text \<open>\<^verbatim>\<open>String(value)\<close>; an array prints its elements joined by commas, with nothing
  for \<^verbatim>\<open>undefined\<close> and \<^verbatim>\<open>null\<close>.\<close>

fun ToString :: "jsval \<Rightarrow> string" where
  "ToString JUndefined = ''undefined''"
| "ToString JNull = ''null''"
| "ToString (JBool b) = (if b then ''true'' else ''false'')"
| "ToString (JNum n) = show_int n"
| "ToString (JStr s) = s"
| "ToString (JArr xs) =
     join '','' (map (\<lambda>x. if x = JUndefined \<or> x = JNull then [] else ToString x) xs)"
| "ToString (JObj ps) = ''[object Object]''"

text \<open>
  The first loop of \<^verbatim>\<open>createMetadata\<close>:
  \<^verbatim>\<open>
  Object.entries(metadata).forEach(([key, value]) => {
    if (value !== undefined && value !== null) { filtered[key] = String(value); }
  });
  \<close>
\<close>

definition filter_defined :: "jsval props \<Rightarrow> string props" where
  "filter_defined metadata =
     fold (\<lambda>(key, value) filtered.
             if value \<noteq> JUndefined \<and> value \<noteq> JNull
             then obj_set filtered key (ToString value) else filtered)
          metadata []"

text \<open>
  The second loop:
  \<^verbatim>\<open>
  keys.forEach(key => {
    const sanitizedKey = key.length > 40 ? key.substring(0, 40) : key;
    const sanitizedValue = filtered[key].length > 500
      ? filtered[key].substring(0, 500) : filtered[key];
    sanitized[sanitizedKey] = sanitizedValue;
  });
  \<close>
  Reading \<^verbatim>\<open>.length\<close> of a missing property would raise a \<^verbatim>\<open>TypeError\<close>.
\<close>

fun truncate_entries :: "string props \<Rightarrow> string list \<Rightarrow> string props \<Rightarrow> error + string props" where
  "truncate_entries filtered [] sanitized = Inr sanitized"
| "truncate_entries filtered (key # keys) sanitized =
     (case map_of filtered key of
        None \<Rightarrow> Inl TypeError
      | Some value \<Rightarrow>
          let sanitizedKey = (if length key > 40 then take 40 key else key);
              sanitizedValue = (if length value > 500 then take 500 value else value)
          in truncate_entries filtered keys (obj_set sanitized sanitizedKey sanitizedValue))"

text \<open>
  \<^verbatim>\<open>
  export function createMetadata(metadata: StandardMetadata): Record<string, string> {
    const filtered: Record<string, string> = {};
    ... first loop ...
    const keys = Object.keys(filtered);
    if (keys.length > 50) {
      console.warn(...);
      return Object.fromEntries(Object.entries(filtered).slice(0, 50));
    }
    const sanitized: Record<string, string> = {};
    ... second loop ...
    return sanitized;
  }
  \<close>
  The warning on the console is the only effect and is left out.
\<close>

definition createMetadata :: "jsval props \<Rightarrow> error + string props" where
  "createMetadata metadata =
     (let filtered = filter_defined metadata;
          keys = map fst filtered
      in if length keys > 50 then Inr (fromEntries (take 50 filtered))
         else truncate_entries filtered keys [])"



section \<open>Property order, well-formed values and the canonical forms\<close>

text \<open>
  \<open>key_before k k'\<close>: the key \<open>k\<close> may come before \<open>k'\<close> in an object. The keys of an
  object are \<open>js_ordered\<close>; \<open>js_key_order\<close> puts the array indices of a list of keys
  first, by value, and leaves the other keys as they are.
\<close>

definition key_before :: "string \<Rightarrow> string \<Rightarrow> bool" where
  "key_before k k' \<longleftrightarrow> (is_array_index k' \<longrightarrow> is_array_index k \<and> dec_val k < dec_val k')"

definition js_ordered :: "string list \<Rightarrow> bool" where
  "js_ordered ks = sorted_wrt key_before ks"

definition js_key_order :: "string list \<Rightarrow> string list" where
  "js_key_order ks =
     sort_key dec_val (filter is_array_index ks) @ filter (\<lambda>k. \<not> is_array_index k) ks"









text \<open>
  \<open>permuted p q\<close>: \<open>q\<close> is \<open>p\<close> with the properties of its objects, at any depth,
  enumerated in another order.
\<close>

fun permuted :: "jsval \<Rightarrow> jsval \<Rightarrow> bool" where
  "permuted (JArr xs) (JArr ys) = list_all2 permuted xs ys"
| "permuted (JObj ps) (JObj qs) =
     (distinct (map fst ps) \<and> distinct (map fst qs) \<and> set (map fst ps) = set (map fst qs) \<and>
      list_all (\<lambda>k. permuted (get_prop ps k) (get_prop qs k)) (map fst ps))"
| "permuted v w = (v = w)"

text \<open>An object: no key twice, and the keys in the order of enumeration.\<close>

definition js_object :: "'a props \<Rightarrow> bool" where
  "js_object ps \<longleftrightarrow> distinct (map fst ps) \<and> js_ordered (map fst ps)"

section \<open>The metadata contract\<close>

text \<open>A value that is neither \<^verbatim>\<open>undefined\<close> nor \<^verbatim>\<open>null\<close>.\<close>

definition present :: "jsval \<Rightarrow> bool" where
  "present v \<longleftrightarrow> v \<noteq> JUndefined \<and> v \<noteq> JNull"

fun is_string :: "jsval \<Rightarrow> bool" where
  "is_string (JStr s) = True"
| "is_string v = False"

text \<open>
  The filter in the words of the specification: drop every entry whose value is absent
  or null, and coerce every other value to its string representation.
\<close>

definition spec_filter :: "jsval props \<Rightarrow> string props" where
  "spec_filter m = map (\<lambda>(k, v). (k, ToString v)) (filter (\<lambda>(k, v). present v) m)"

text \<open>The three limits of the provider: 50 entries, keys of 40 and values of 500 characters.\<close>

definition within_limits :: "string props \<Rightarrow> bool" where
  "within_limits r \<longleftrightarrow>
     length r \<le> 50 \<and> list_all (\<lambda>(k, v). length k \<le> 40 \<and> length v \<le> 500) r"

text \<open>A result of \<^verbatim>\<open>createMetadata\<close>, a \<^verbatim>\<open>Record<string, string>\<close>, given back as metadata.\<close>

definition as_metadata :: "string props \<Rightarrow> jsval props" where
  "as_metadata r = map (\<lambda>(k, s). (k, JStr s)) r"


section \<open>SHA-256: a test vector and the shape of the digest\<close>

lemma sha256_hex_abc:
  "sha256_hex ''abc'' = ''ba7816bf8f01cfea414140de5dae2223b00361a396177a9cb410ff61f20015ad''"
  by code_simp

lemma length_round256: "length (round256 st kw) = length st"
  by (induction st kw rule: round256.induct) (simp_all add: Let_def)

lemma length_rounds: "length (foldl round256 st kws) = length st"
  by (induction kws arbitrary: st) (simp_all add: length_round256)

lemma length_compress: "length (compress st block) = length st"
  by (simp add: compress_def length_rounds)

lemma length_hash_blocks: "length (hash_blocks st bs) = length st"
  by (induction st bs rule: hash_blocks.induct) (simp_all add: length_compress)

lemma length_hex32: "length (hex32 w) = 8"
  by (simp add: hex32_def)

lemma length_concat_hex32: "length (concat (map hex32 ws)) = 8 * length ws"
  by (induction ws) (simp_all add: length_hex32)

lemma length_sha256_hex: "length (sha256_hex s) = 64"
  by (simp add: sha256_hex_def length_concat_hex32 length_hash_blocks H256_def)




section \<open>The length of a derived key\<close>

lemma length_generateIdempotencyKey:
  "length (generateIdempotencyKey operation params) = length operation + 33"
  by (simp add: generateIdempotencyKey_def Let_def length_sha256_hex)

text \<open>
  C4, as stated: the key is at most 255 characters long for every operation string. The
  key is the operation string, a hyphen and 32 digits, and nothing shortens the operation
  string: at 223 characters the key has 256.
\<close>

theorem key_length_unbounded:
  "\<not> length (generateIdempotencyKey (replicate 223 (CHR ''a'')) JNull) \<le> 255"
  by (simp add: length_generateIdempotencyKey)

text \<open>
  C4, amended: for every operation string of at most 222 characters and every parameter
  value, the key is at most 255 characters long.
\<close>

theorem key_length_bounded:
  "length operation \<le> 222 \<Longrightarrow> length (generateIdempotencyKey operation params) \<le> 255"
  by (simp add: length_generateIdempotencyKey)

theorem key_length_bounded_witness:
  "length ''balance-credit'' \<le> 222 \<and>
   length (generateIdempotencyKey ''balance-credit'' (JObj [(''amount'', JNum 1000)])) \<le> 255"
  using key_length_bounded [of "''balance-credit''" "JObj [(''amount'', JNum 1000)]"] by simp

section \<open>Evaluating the model\<close>

lemmas js_eval = obj_set_def is_array_index_def dec_val_def show_nat.simps get_prop_def
  show_int_def quote_def escape_unit_def hex_digit_def template_def

lemma key_items_12:
  "generateIdempotencyKey ''op'' (JObj [(''items'', JArr [JNum 1, JNum 2])]) =
     ''op-e61cd1a6454cd9e43a31442be6e10a21''"
  apply (simp add: generateIdempotencyKey_def js_eval)
  apply code_simp
  done

lemma key_items_21:
  "generateIdempotencyKey ''op'' (JObj [(''items'', JArr [JNum 2, JNum 1])]) =
     ''op-2ab24931fd7835c0228dd26c4bebb006''"
  apply (simp add: generateIdempotencyKey_def js_eval)
  apply code_simp
  done

section \<open>Sequences keep their order\<close>

text \<open>
  C5: canonicalization keeps the order of a sequence, and there are an operation and two
  parameter structures, equal except that a nested sequence holds the same elements in
  another order, whose keys differ.
\<close>

theorem sequence_order_changes_key:
  "sortObjectKeys (JObj [(''items'', JArr [JNum 2, JNum 1])]) =
     JObj [(''items'', JArr [JNum 2, JNum 1])] \<and>
   generateIdempotencyKey ''op'' (JObj [(''items'', JArr [JNum 1, JNum 2])]) \<noteq>
   generateIdempotencyKey ''op'' (JObj [(''items'', JArr [JNum 2, JNum 1])])"
  by (simp add: key_items_12 key_items_21 js_eval)

section \<open>Objects\<close>

lemma dec_val_inj: "is_array_index k \<Longrightarrow> is_array_index k' \<Longrightarrow> dec_val k = dec_val k' \<Longrightarrow> k = k'"
  by (metis is_array_index_def)

lemma insert_index_split: "\<exists>as bs. ps = as @ bs \<and> insert_index k v ps = as @ (k, v) # bs"
proof (induction ps)
  case Nil
  then show ?case by simp
next
  case (Cons p ps)
  obtain k' v' where p: "p = (k', v')" by (cases p)
  show ?case
  proof (cases "is_array_index k' \<and> dec_val k' < dec_val k")
    case True
    from Cons obtain as bs where "ps = as @ bs" "insert_index k v ps = as @ (k, v) # bs"
      by blast
    then have "p # ps = (p # as) @ bs \<and> insert_index k v (p # ps) = (p # as) @ (k, v) # bs"
      using True p by simp
    then show ?thesis by blast
  next
    case False
    then have "p # ps = [] @ (p # ps) \<and> insert_index k v (p # ps) = [] @ (k, v) # (p # ps)"
      using p by auto
    then show ?thesis by blast
  qed
qed

lemma set_insert_index: "set (insert_index k v ps) = insert (k, v) (set ps)"
proof -
  obtain as bs where s: "ps = as @ bs" and t: "insert_index k v ps = as @ (k, v) # bs"
    using insert_index_split [of ps k v] by blast
  have "set (insert_index k v ps) = set (as @ (k, v) # bs)"
    by (simp only: t)
  also have "\<dots> = insert (k, v) (set (as @ bs))"
    by simp
  finally show ?thesis
    by (simp only: s)
qed

lemma keys_insert_index: "fst ` set (insert_index k v ps) = insert k (fst ` set ps)"
  by (simp add: set_insert_index)

lemma length_insert_index: "length (insert_index k v ps) = Suc (length ps)"
  by (induction ps) auto

lemma map_fst_replace_value: "map fst (replace_value k v ps) = map fst ps"
  by (induction ps) auto






lemma obj_set_update: "k \<in> fst ` set ps \<Longrightarrow> obj_set ps k v = replace_value k v ps"
  by (simp add: obj_set_def)

lemma obj_set_index:
  "k \<notin> fst ` set ps \<Longrightarrow> is_array_index k \<Longrightarrow> obj_set ps k v = insert_index k v ps"
  by (simp add: obj_set_def)

lemma obj_set_named:
  "k \<notin> fst ` set ps \<Longrightarrow> \<not> is_array_index k \<Longrightarrow> obj_set ps k v = ps @ [(k, v)]"
  by (simp add: obj_set_def)

lemma keys_obj_set: "fst ` set (obj_set ps k v) = insert k (fst ` set ps)"
proof (cases "k \<in> fst ` set ps")
  case True
  have "set (map fst (replace_value k v ps)) = set (map fst ps)"
    by (simp only: map_fst_replace_value)
  with True show ?thesis by (auto simp: obj_set_update)
next
  case False
  then show ?thesis
    by (cases "is_array_index k") (simp_all add: obj_set_index obj_set_named keys_insert_index)
qed



lemma length_obj_set:
  "length (obj_set ps k v) = (if k \<in> fst ` set ps then length ps else Suc (length ps))"
proof -
  have "length (replace_value k v ps) = length ps"
    by (induction ps) auto
  then show ?thesis
    by (simp add: obj_set_def length_insert_index)
qed

lemma insert_index_sorted:
  assumes "\<forall>i \<in> set is. is_array_index i" "\<forall>n \<in> set ns. \<not> is_array_index n"
  shows "insert_index k (g k) (map (\<lambda>x. (x, g x)) is @ map (\<lambda>x. (x, g x)) ns) =
         map (\<lambda>x. (x, g x)) (insort_key dec_val k is) @ map (\<lambda>x. (x, g x)) ns"
  using assms
proof (induction "is")
  case Nil
  then show ?case by (cases ns) simp_all
next
  case (Cons i "is")
  then show ?case by (auto simp: not_le)
qed

lemma inj_on_dec_val: "\<forall>k \<in> A. is_array_index k \<Longrightarrow> inj_on dec_val A"
  by (auto simp: inj_on_def dest: dec_val_inj)

lemma sort_key_snoc:
  assumes "inj_on f (set (xs @ [x]))"
  shows "sort_key f (xs @ [x]) = insort_key f x (sort_key f xs)"
proof -
  from assms have "inj_on f (set xs)"
    by (simp add: inj_on_def)
  with assms show ?thesis
    by (simp add: sort_key_conv_fold)
qed

lemma set_js_key_order: "set (js_key_order ks) = set ks"
  by (auto simp: js_key_order_def)

lemma js_key_order_snoc_index:
  assumes "is_array_index k"
  shows "js_key_order (ks @ [k]) =
         insort_key dec_val k (sort_key dec_val (filter is_array_index ks)) @
         filter (\<lambda>k. \<not> is_array_index k) ks"
proof -
  have "inj_on dec_val (set (filter is_array_index ks @ [k]))"
    using assms by (intro inj_on_dec_val) auto
  then show ?thesis
    using assms by (simp add: js_key_order_def sort_key_snoc)
qed

lemma js_key_order_snoc_named:
  "\<not> is_array_index k \<Longrightarrow> js_key_order (ks @ [k]) = js_key_order ks @ [k]"
  by (simp add: js_key_order_def)

lemma fold_obj_set:
  assumes "distinct ks"
  shows "fold (\<lambda>k acc. obj_set acc k (g k)) ks [] = map (\<lambda>k. (k, g k)) (js_key_order ks)"
  using assms
proof (induction ks rule: rev_induct)
  case Nil
  then show ?case by (simp add: js_key_order_def)
next
  case (snoc k ks)
  let ?h = "\<lambda>x. (x, g x)"
  let ?acc = "map ?h (js_key_order ks)"
  from snoc have acc: "fold (\<lambda>k acc. obj_set acc k (g k)) ks [] = ?acc" and fresh: "k \<notin> set ks"
    by simp_all
  have keys: "fst ` set ?acc = set ks"
    by (simp add: image_image set_js_key_order)
  have fresh': "k \<notin> fst ` set ?acc"
    unfolding keys by (rule fresh)
  have step: "fold (\<lambda>k acc. obj_set acc k (g k)) (ks @ [k]) [] = obj_set ?acc k (g k)"
    by (simp add: acc)
  show ?case
  proof (cases "is_array_index k")
    case True
    have "obj_set ?acc k (g k) = insert_index k (g k) ?acc"
      using fresh' True by (rule obj_set_index)
    also have "\<dots> = insert_index k (g k)
        (map ?h (sort_key dec_val (filter is_array_index ks)) @
         map ?h (filter (\<lambda>k. \<not> is_array_index k) ks))"
      by (simp add: js_key_order_def)
    also have "\<dots> =
        map ?h (insort_key dec_val k (sort_key dec_val (filter is_array_index ks))) @
        map ?h (filter (\<lambda>k. \<not> is_array_index k) ks)"
      by (rule insert_index_sorted) simp_all
    also have "\<dots> = map ?h (js_key_order (ks @ [k]))"
      by (simp add: js_key_order_snoc_index [OF True])
    finally show ?thesis
      by (simp only: step)
  next
    case False
    have "obj_set ?acc k (g k) = ?acc @ [(k, g k)]"
      using fresh' False by (rule obj_set_named)
    then show ?thesis
      by (simp only: step js_key_order_snoc_named [OF False]) simp
  qed
qed

section \<open>sortObjectKeys computes the canonical form\<close>



lemma sort_keys_eq:
  assumes "distinct xs" "distinct ys" "set xs = set ys"
  shows "sort xs = sort (ys :: string list)"
  using assms by (intro sorted_distinct_set_unique) simp_all

lemma permuted_sortObjectKeys: "permuted p q \<Longrightarrow> sortObjectKeys p = sortObjectKeys q"
proof (induction p q rule: permuted.induct)
  case (1 xs ys)
  from 1(2) have len: "length xs = length ys"
    and nth: "\<And>i. i < length xs \<Longrightarrow> permuted (xs ! i) (ys ! i)"
    by (simp_all add: list_all2_conv_all_nth)
  have "map sortObjectKeys xs = map sortObjectKeys ys"
  proof (rule nth_equalityI)
    show "length (map sortObjectKeys xs) = length (map sortObjectKeys ys)"
      by (simp add: len)
  next
    fix i assume "i < length (map sortObjectKeys xs)"
    then have i: "i < length xs" by simp
    then have "sortObjectKeys (xs ! i) = sortObjectKeys (ys ! i)"
      using len by (intro 1(1) nth) simp_all
    with i len show "map sortObjectKeys xs ! i = map sortObjectKeys ys ! i"
      by simp
  qed
  then show ?case by simp
next
  case (2 ps qs)
  from 2(2) have keys: "sort (map fst ps) = sort (map fst qs)"
    by (intro sort_keys_eq) simp_all
  have "fold (\<lambda>key sorted. obj_set sorted key (sortObjectKeys (get_prop ps key)))
          (sort (map fst ps)) [] =
        fold (\<lambda>key sorted. obj_set sorted key (sortObjectKeys (get_prop qs key)))
          (sort (map fst qs)) []"
  proof (rule fold_cong [OF refl keys])
    fix k assume "k \<in> set (sort (map fst ps))"
    then have k: "k \<in> set (map fst ps)" by simp
    from 2(2) have "list_all (\<lambda>k. permuted (get_prop ps k) (get_prop qs k)) (map fst ps)"
      by simp
    then have "\<forall>k \<in> set (map fst ps). permuted (get_prop ps k) (get_prop qs k)"
      by (simp only: list_all_iff)
    with k have "permuted (get_prop ps k) (get_prop qs k)"
      by blast
    with k have "sortObjectKeys (get_prop ps k) = sortObjectKeys (get_prop qs k)"
      by (rule 2(1))
    then show "(\<lambda>sorted. obj_set sorted k (sortObjectKeys (get_prop ps k))) =
               (\<lambda>sorted. obj_set sorted k (sortObjectKeys (get_prop qs k)))"
      by simp
  qed
  then show ?case by simp
qed simp_all

lemma js_key_order_filter: "js_key_order (filter P ks) = filter P (js_key_order ks)"
proof -
  have "filter is_array_index (filter P ks) = filter P (filter is_array_index ks)"
    and "filter (\<lambda>k. \<not> is_array_index k) (filter P ks) = filter P (filter (\<lambda>k. \<not> is_array_index k) ks)"
    by (simp_all add: conj_commute)
  then show ?thesis
    unfolding js_key_order_def by (simp only: filter_append filter_sort)
qed

lemma concat_map_filter:
  "(\<And>x. x \<in> set xs \<Longrightarrow> \<not> P x \<Longrightarrow> f x = []) \<Longrightarrow> concat (map f (filter P xs)) = concat (map f xs)"
  by (induction xs) auto

lemma get_prop_other:
  "x \<noteq> k \<Longrightarrow> get_prop (xs @ (k, v) # ys) x = get_prop (xs @ ys) x"
  by (simp add: get_prop_def map_add_def split: option.splits)

lemma get_prop_added:
  "k \<notin> fst ` set xs \<Longrightarrow> get_prop (xs @ (k, v) # ys) k = v"
proof -
  assume "k \<notin> fst ` set xs"
  then have "map_of xs k = None" by (simp add: map_of_eq_None_iff)
  then show ?thesis by (simp add: get_prop_def map_add_def)
qed

lemma stringify_undefined_property:
  assumes fresh: "k \<notin> fst ` set (xs @ ys)" and d: "distinct (map fst (xs @ ys))"
  shows "JSON_stringify (sortObjectKeys (JObj (xs @ (k, JUndefined) # ys))) =
         JSON_stringify (sortObjectKeys (JObj (xs @ ys)))"
proof -
  let ?m' = "xs @ (k, JUndefined) # ys" and ?m = "xs @ ys"
  let ?K' = "js_key_order (sort (map fst ?m'))"
  let ?h' = "\<lambda>x. (x, sortObjectKeys (get_prop ?m' x))"
  let ?h = "\<lambda>x. (x, sortObjectKeys (get_prop ?m x))"
  let ?mem = "\<lambda>(k, v). case JSON_stringify v of None \<Rightarrow> [] | Some s \<Rightarrow> [quote k @ '':'' @ s]"
  from fresh d have d': "distinct (map fst ?m')" by auto
  have "filter (\<lambda>x. x \<noteq> k) (map fst zs) = map fst zs" if "k \<notin> fst ` set zs" for zs :: "jsval props"
    using that by (induction zs) auto
  with fresh have keys: "map fst ?m = filter (\<lambda>x. x \<noteq> k) (map fst ?m')"
    by (simp add: image_Un)
  have m': "sortObjectKeys (JObj ?m') = JObj (map ?h' ?K')"
    using d' by (simp only: sortObjectKeys.simps) (simp add: fold_obj_set)
  have "sortObjectKeys (JObj ?m) = JObj (map ?h (js_key_order (sort (map fst ?m))))"
    using d by (simp only: sortObjectKeys.simps) (simp add: fold_obj_set)
  also have "js_key_order (sort (map fst ?m)) = filter (\<lambda>x. x \<noteq> k) ?K'"
    by (simp only: keys filter_sort [symmetric] js_key_order_filter)
  also have "map ?h (filter (\<lambda>x. x \<noteq> k) ?K') = map ?h' (filter (\<lambda>x. x \<noteq> k) ?K')"
    by (rule map_cong [OF refl]) (simp add: get_prop_other)
  also have "\<dots> = filter (\<lambda>p. fst p \<noteq> k) (map ?h' ?K')"
    by (simp add: filter_map comp_def)
  finally have m: "sortObjectKeys (JObj ?m) = JObj (filter (\<lambda>p. fst p \<noteq> k) (map ?h' ?K'))" .
  have "concat (map ?mem (filter (\<lambda>p. fst p \<noteq> k) (map ?h' ?K'))) = concat (map ?mem (map ?h' ?K'))"
  proof (rule concat_map_filter)
    fix p assume a: "p \<in> set (map ?h' ?K')" and b: "\<not> fst p \<noteq> k"
    from a have "p \<in> ?h' ` set ?K'" by (simp only: set_map)
    then obtain x where px: "p = ?h' x" by (rule imageE)
    then have "fst p = x" by simp
    with b have "x = k" by simp
    with px have "p = (k, sortObjectKeys (get_prop ?m' k))" by simp
    moreover have "get_prop ?m' k = JUndefined"
      using fresh by (intro get_prop_added) auto
    ultimately show "?mem p = []" by simp
  qed
  then show ?thesis
    by (simp only: m m' JSON_stringify.simps)
qed

section \<open>The derived key and the canonical form\<close>






section \<open>The order of properties does not matter\<close>

text \<open>
  C2: for every operation string and all mappings \<open>m\<close> and \<open>m'\<close> with the same
  properties, possibly nested, in another order, the derived keys are equal.
\<close>

theorem key_order_independent:
  "permuted (JObj m) (JObj m') \<Longrightarrow>
   generateIdempotencyKey operation (JObj m) = generateIdempotencyKey operation (JObj m')"
  by (simp only: generateIdempotencyKey_def permuted_sortObjectKeys [of "JObj m" "JObj m'"])

theorem key_order_independent_witness:
  "permuted
     (JObj [(''customerId'', JStr ''cus_1''), (''amount'', JNum 1000),
            (''metadata'', JObj [(''tenantId'', JStr ''t1''), (''userId'', JStr ''u1'')])])
     (JObj [(''metadata'', JObj [(''userId'', JStr ''u1''), (''tenantId'', JStr ''t1'')]),
            (''amount'', JNum 1000), (''customerId'', JStr ''cus_1'')]) \<and>
   generateIdempotencyKey ''balance-credit''
     (JObj [(''customerId'', JStr ''cus_1''), (''amount'', JNum 1000),
            (''metadata'', JObj [(''tenantId'', JStr ''t1''), (''userId'', JStr ''u1'')])]) =
   generateIdempotencyKey ''balance-credit''
     (JObj [(''metadata'', JObj [(''userId'', JStr ''u1''), (''tenantId'', JStr ''t1'')]),
            (''amount'', JNum 1000), (''customerId'', JStr ''cus_1'')])"
proof -
  have p: "permuted
     (JObj [(''customerId'', JStr ''cus_1''), (''amount'', JNum 1000),
            (''metadata'', JObj [(''tenantId'', JStr ''t1''), (''userId'', JStr ''u1'')])])
     (JObj [(''metadata'', JObj [(''userId'', JStr ''u1''), (''tenantId'', JStr ''t1'')]),
            (''amount'', JNum 1000), (''customerId'', JStr ''cus_1'')])"
    by (auto simp: get_prop_def)
  from p key_order_independent [OF p] show ?thesis by (rule conjI)
qed

section \<open>A property that is undefined\<close>

text \<open>
  C10: for every operation string, every mapping and every key \<open>k\<close> that the mapping
  does not have, binding \<open>k\<close> to \<^verbatim>\<open>undefined\<close> (at any place among the properties) leaves
  the derived key unchanged.
\<close>

theorem undefined_property_same_key:
  "k \<notin> fst ` set (xs @ ys) \<Longrightarrow> distinct (map fst (xs @ ys)) \<Longrightarrow>
   generateIdempotencyKey operation (JObj (xs @ (k, JUndefined) # ys)) =
   generateIdempotencyKey operation (JObj (xs @ ys))"
proof -
  assume "k \<notin> fst ` set (xs @ ys)" "distinct (map fst (xs @ ys))"
  then have "JSON_stringify (sortObjectKeys (JObj (xs @ (k, JUndefined) # ys))) =
             JSON_stringify (sortObjectKeys (JObj (xs @ ys)))"
    by (rule stringify_undefined_property)
  then show ?thesis
    by (simp only: generateIdempotencyKey_def Let_def)
qed

theorem undefined_property_same_key_witness:
  "''description'' \<notin> fst ` set ([(''amount'', JNum 100)] @ [(''currency'', JStr ''usd'')]) \<and>
   distinct (map fst ([(''amount'', JNum 100)] @ [(''currency'', JStr ''usd'')])) \<and>
   generateIdempotencyKey ''coupon''
     (JObj ([(''amount'', JNum 100)] @ (''description'', JUndefined) # [(''currency'', JStr ''usd'')])) =
   generateIdempotencyKey ''coupon'' (JObj ([(''amount'', JNum 100)] @ [(''currency'', JStr ''usd'')]))"
  using undefined_property_same_key
    [of "''description''" "[(''amount'', JNum 100)]" "[(''currency'', JStr ''usd'')]" "''coupon''"]
  by simp

section \<open>createMetadata on small inputs\<close>

lemma sorted_js_key_order_index:
  "sorted (map dec_val (sort_key dec_val (filter is_array_index ks)))"
  by (rule sorted_sort_key)

lemma js_key_order_idem: "js_key_order (js_key_order ks) = js_key_order ks"
proof -
  let ?I = "sort_key dec_val (filter is_array_index ks)"
  let ?N = "filter (\<lambda>k. \<not> is_array_index k) ks"
  have i: "filter is_array_index (?I @ ?N) = ?I"
    by (simp add: filter_sort)
  have n: "filter (\<lambda>k. \<not> is_array_index k) (?I @ ?N) = ?N"
    by (simp add: filter_sort)
  have "sort_key dec_val ?I = ?I"
    by (rule sort_key_id_if_sorted) (rule sorted_sort_key)
  then show ?thesis
    unfolding js_key_order_def by (simp only: i n)
qed

lemma js_key_order_named: "\<forall>k \<in> set ks. \<not> is_array_index k \<Longrightarrow> js_key_order ks = ks"
  by (simp add: js_key_order_def filter_id_conv filter_empty_conv)

lemma distinct_js_key_order: "distinct ks \<Longrightarrow> distinct (js_key_order ks)"
  by (auto simp: js_key_order_def)

lemma length_js_key_order: "length (js_key_order ks) = length ks"
proof -
  have "length (js_key_order ks) = length (filter is_array_index ks) + length (filter (\<lambda>k. \<not> is_array_index k) ks)"
    by (simp add: js_key_order_def)
  then show ?thesis
    by (simp add: sum_length_filter_compl)
qed

lemma map_of_distinct: "distinct (map fst ps) \<Longrightarrow> (k, v) \<in> set ps \<Longrightarrow> map_of ps k = Some v"
  by simp

lemma fold_pairs:
  assumes "distinct (map fst ps)"
  shows "fold (\<lambda>(k, v) acc. F k v acc) ps a = fold (\<lambda>k acc. F k (the (map_of ps k)) acc) (map fst ps) a"
proof -
  have "fold (\<lambda>k acc. F k (the (map_of ps k)) acc) (map fst ps) a =
        fold ((\<lambda>k acc. F k (the (map_of ps k)) acc) \<circ> fst) ps a"
    by (simp only: fold_map)
  also have "\<dots> = fold (\<lambda>(k, v) acc. F k v acc) ps a"
  proof (rule fold_cong [OF refl refl])
    fix p assume "p \<in> set ps"
    moreover obtain k v where "p = (k, v)" by (cases p)
    ultimately have "map_of ps k = Some v" using assms by simp
    with \<open>p = (k, v)\<close> show "((\<lambda>k acc. F k (the (map_of ps k)) acc) \<circ> fst) p = (case p of (k, v) \<Rightarrow> \<lambda>acc. F k v acc)"
      by simp
  qed
  finally show ?thesis by simp
qed

lemma fromEntries_eq:
  assumes "distinct (map fst ps)"
  shows "fromEntries ps = map (\<lambda>k. (k, the (map_of ps k))) (js_key_order (map fst ps))"
proof -
  have "fromEntries ps = fold (\<lambda>k acc. obj_set acc k (the (map_of ps k))) (map fst ps) []"
    unfolding fromEntries_def using assms by (rule fold_pairs [where F = "\<lambda>k v acc. obj_set acc k v"])
  also have "\<dots> = map (\<lambda>k. (k, the (map_of ps k))) (js_key_order (map fst ps))"
    using assms by (rule fold_obj_set)
  finally show ?thesis .
qed

lemma filter_defined_fold:
  "filter_defined m =
     fold (\<lambda>(k, v) acc. obj_set acc k (ToString v)) (filter (\<lambda>(k, v). present v) m) []"
proof -
  have "(\<lambda>(key, value) filtered. if value \<noteq> JUndefined \<and> value \<noteq> JNull
           then obj_set filtered key (ToString value) else filtered) =
        (\<lambda>x. if (\<lambda>(k, v). present v) x then (\<lambda>(k, v) acc. obj_set acc k (ToString v)) x else id)"
    by (auto simp: fun_eq_iff present_def)
  then show ?thesis
    unfolding filter_defined_def by (simp only: fold_filter)
qed

lemma filter_defined_eq:
  assumes "distinct (map fst m)"
  shows "filter_defined m =
         map (\<lambda>k. (k, ToString (get_prop m k)))
           (js_key_order (map fst (filter (\<lambda>(k, v). present v) m)))"
proof -
  let ?d = "filter (\<lambda>(k, v). present v) m"
  from assms have d: "distinct (map fst ?d)"
    by (rule distinct_map_filter)
  have "filter_defined m = fold (\<lambda>k acc. obj_set acc k (ToString (the (map_of ?d k)))) (map fst ?d) []"
    unfolding filter_defined_fold using d
    by (rule fold_pairs [where F = "\<lambda>k v acc. obj_set acc k (ToString v)"])
  also have "\<dots> = map (\<lambda>k. (k, ToString (the (map_of ?d k)))) (js_key_order (map fst ?d))"
    using d by (rule fold_obj_set)
  also have "\<dots> = map (\<lambda>k. (k, ToString (get_prop m k))) (js_key_order (map fst ?d))"
  proof (rule map_cong [OF refl])
    fix k assume "k \<in> set (js_key_order (map fst ?d))"
    then have "k \<in> fst ` set ?d" by (simp add: set_js_key_order)
    then obtain v where kv: "(k, v) \<in> set ?d" by auto
    then have "(k, v) \<in> set m" by simp
    with assms have "map_of m k = Some v" by simp
    moreover from kv d have "map_of ?d k = Some v" by (intro map_of_distinct)
    ultimately show "(k, ToString (the (map_of ?d k))) = (k, ToString (get_prop m k))"
      by (simp add: get_prop_def)
  qed
  finally show ?thesis .
qed



lemma truncate_entries_small:
  assumes "\<forall>k \<in> set ks. length k \<le> 40 \<and> (\<exists>v. map_of f k = Some v \<and> length v \<le> 500)"
  shows "truncate_entries f ks acc = Inr (fold (\<lambda>k acc. obj_set acc k (the (map_of f k))) ks acc)"
  using assms
proof (induction ks arbitrary: acc)
  case Nil
  then show ?case by simp
next
  case (Cons k ks)
  then obtain v where "map_of f k = Some v" "length v \<le> 500" "length k \<le> 40"
    by auto
  with Cons show ?case by simp
qed

lemma createMetadata_small:
  assumes d: "distinct (map fst m)"
    and n: "length (filter (\<lambda>(k, v). present v) m) \<le> 50"
    and b: "\<forall>(k, v) \<in> set m. present v \<longrightarrow> length k \<le> 40 \<and> length (ToString v) \<le> 500"
  shows "createMetadata m =
         Inr (map (\<lambda>k. (k, ToString (get_prop m k)))
                (js_key_order (map fst (filter (\<lambda>(k, v). present v) m))))"
proof -
  let ?dk = "map fst (filter (\<lambda>(k, v). present v) m)"
  let ?K = "js_key_order ?dk"
  let ?g = "\<lambda>k. ToString (get_prop m k)"
  let ?f = "map (\<lambda>k. (k, ?g k)) ?K"
  have f: "filter_defined m = ?f"
    using d by (rule filter_defined_eq)
  have dK: "distinct ?K"
    using d by (intro distinct_js_key_order distinct_map_filter)
  have keys: "map fst ?f = ?K"
    by (simp add: comp_def)
  have lookup: "map_of ?f k = Some (?g k)" if "k \<in> set ?K" for k
    using that by (simp add: map_of_map_restrict)
  have small: "length k \<le> 40 \<and> length (?g k) \<le> 500" if "k \<in> set ?K" for k
  proof -
    from that have "k \<in> set ?dk" by (simp only: set_js_key_order)
    then obtain v where kv: "(k, v) \<in> set m" "present v" by auto
    with d have "map_of m k = Some v" by simp
    then have "get_prop m k = v" by (simp add: get_prop_def)
    with b kv show ?thesis by auto
  qed
  have "length ?f \<le> 50"
    using n by (simp add: length_js_key_order)
  then have "createMetadata m = truncate_entries ?f ?K []"
    unfolding createMetadata_def Let_def f keys by simp
  also have "\<dots> = Inr (fold (\<lambda>k acc. obj_set acc k (the (map_of ?f k))) ?K [])"
    by (rule truncate_entries_small) (use lookup small in auto)
  also have "fold (\<lambda>k acc. obj_set acc k (the (map_of ?f k))) ?K [] =
             map (\<lambda>k. (k, the (map_of ?f k))) (js_key_order ?K)"
    using dK by (rule fold_obj_set)
  also have "\<dots> = map (\<lambda>k. (k, the (map_of ?f k))) ?K"
    by (simp only: js_key_order_idem)
  also have "\<dots> = ?f"
    by (rule map_cong [OF refl]) (simp add: lookup)
  finally show ?thesis .
qed

lemma js_key_order_Cons_index:
  "is_array_index k \<Longrightarrow>
   js_key_order (k # ks) =
     insort_key dec_val k (sort_key dec_val (filter is_array_index ks)) @
     filter (\<lambda>k. \<not> is_array_index k) ks"
  by (simp add: js_key_order_def)

lemma js_key_order_ordered: "js_ordered ks \<Longrightarrow> js_key_order ks = ks"
proof (induction ks)
  case Nil
  then show ?case by (simp add: js_key_order_def)
next
  case (Cons k ks)
  then have before: "\<forall>x \<in> set ks. key_before k x" and tl: "js_key_order ks = ks"
    by (simp_all add: js_ordered_def)
  show ?case
  proof (cases "is_array_index k")
    case True
    let ?I = "sort_key dec_val (filter is_array_index ks)"
    have "\<forall>x \<in> set ?I. dec_val k \<le> dec_val x"
      using before by (auto simp: key_before_def)
    then have "insort_key dec_val k ?I = k # ?I"
      by (rule insort_is_Cons)
    then have "js_key_order (k # ks) = k # js_key_order ks"
      by (simp only: js_key_order_Cons_index [OF True]) (simp add: js_key_order_def)
    with tl show ?thesis by simp
  next
    case False
    with before have "\<forall>x \<in> set ks. \<not> is_array_index x"
      by (auto simp: key_before_def)
    then have "js_key_order (k # ks) = k # ks"
      using False by (intro js_key_order_named) simp
    then show ?thesis .
  qed
qed

lemma js_ordered_filter: "js_ordered (map fst ps) \<Longrightarrow> js_ordered (map fst (filter P ps))"
  unfolding js_ordered_def sorted_wrt_map by (rule sorted_wrt_filter)

lemma js_ordered_take: "js_ordered ks \<Longrightarrow> js_ordered (take n ks)"
  unfolding js_ordered_def by (rule sorted_wrt_take)

lemma spec_filter_keys: "map fst (spec_filter m) = map fst (filter (\<lambda>(k, v). present v) m)"
  by (simp add: spec_filter_def comp_def case_prod_unfold)

lemma filter_defined_object:
  assumes "js_object m"
  shows "filter_defined m = spec_filter m"
proof -
  let ?d = "filter (\<lambda>(k, v). present v) m"
  from assms have d: "distinct (map fst m)" and o: "js_ordered (map fst m)"
    by (simp_all add: js_object_def)
  have "filter_defined m = map (\<lambda>k. (k, ToString (get_prop m k))) (js_key_order (map fst ?d))"
    using d by (rule filter_defined_eq)
  also have "js_key_order (map fst ?d) = map fst ?d"
    using o by (intro js_key_order_ordered js_ordered_filter)
  also have "map (\<lambda>k. (k, ToString (get_prop m k))) (map fst ?d) = map (\<lambda>(k, v). (k, ToString v)) ?d"
  proof (simp only: map_map, rule map_cong [OF refl])
    fix p assume "p \<in> set ?d"
    moreover obtain k v where p: "p = (k, v)" by (cases p)
    ultimately have "(k, v) \<in> set m" by simp
    with d have "map_of m k = Some v" by simp
    then show "((\<lambda>k. (k, ToString (get_prop m k))) \<circ> fst) p = (case p of (k, v) \<Rightarrow> (k, ToString v))"
      by (simp add: p get_prop_def)
  qed
  finally show ?thesis by (simp only: spec_filter_def)
qed

lemma fromEntries_object:
  assumes "js_object ps"
  shows "fromEntries ps = ps"
proof -
  from assms have d: "distinct (map fst ps)" and o: "js_ordered (map fst ps)"
    by (simp_all add: js_object_def)
  have "fromEntries ps = map (\<lambda>k. (k, the (map_of ps k))) (js_key_order (map fst ps))"
    using d by (rule fromEntries_eq)
  also have "js_key_order (map fst ps) = map fst ps"
    using o by (rule js_key_order_ordered)
  also have "map (\<lambda>k. (k, the (map_of ps k))) (map fst ps) = map (\<lambda>p. p) ps"
  proof (simp only: map_map, rule map_cong [OF refl])
    fix p assume "p \<in> set ps"
    moreover obtain k v where p: "p = (k, v)" by (cases p)
    ultimately have "map_of ps k = Some v" using d by simp
    then show "((\<lambda>k. (k, the (map_of ps k))) \<circ> fst) p = p"
      by (simp add: p)
  qed
  finally show ?thesis by simp
qed

lemma js_object_spec_filter: "js_object m \<Longrightarrow> js_object (spec_filter m)"
  unfolding js_object_def spec_filter_keys
  by (simp add: distinct_map_filter js_ordered_filter)

lemma js_object_take: "js_object ps \<Longrightarrow> js_object (take n ps)"
  unfolding js_object_def take_map [symmetric]
  by (simp add: js_ordered_take distinct_take)

lemma createMetadata_over_50:
  assumes "js_object m" "50 < length (filter (\<lambda>(k, v). present v) m)"
  shows "createMetadata m = Inr (take 50 (spec_filter m))"
proof -
  have f: "filter_defined m = spec_filter m"
    using assms(1) by (rule filter_defined_object)
  have "js_object (take 50 (spec_filter m))"
    using assms(1) by (intro js_object_take js_object_spec_filter)
  then have "fromEntries (take 50 (spec_filter m)) = take 50 (spec_filter m)"
    by (rule fromEntries_object)
  moreover have "50 < length (spec_filter m)"
    using assms(2) by (simp add: spec_filter_def)
  ultimately show ?thesis
    unfolding createMetadata_def Let_def f by simp
qed

section \<open>Neither function raises\<close>


section \<open>Absent values are dropped\<close>




section \<open>createMetadata is idempotent within the limits\<close>

lemma is_string_present: "is_string v \<Longrightarrow> present v"
  by (cases v) (simp_all add: present_def)

lemma get_prop_as_metadata:
  "distinct (map fst r) \<Longrightarrow> (k, s) \<in> set r \<Longrightarrow> get_prop (as_metadata r) k = JStr s"
proof -
  assume d: "distinct (map fst r)" and "(k, s) \<in> set r"
  then have "(k, JStr s) \<in> set (as_metadata r)"
    by (auto simp: as_metadata_def intro!: image_eqI [where x = "(k, s)"])
  moreover have "map fst (as_metadata r) = map fst r"
    by (simp add: as_metadata_def comp_def case_prod_unfold)
  ultimately have "map_of (as_metadata r) k = Some (JStr s)"
    using d by simp
  then show ?thesis by (simp add: get_prop_def)
qed

lemma createMetadata_fixed:
  assumes d: "distinct (map fst r)" and o: "js_ordered (map fst r)" and b: "within_limits r"
  shows "createMetadata (as_metadata r) = Inr r"
proof -
  let ?m = "as_metadata r"
  have keys: "map fst ?m = map fst r"
    by (simp add: as_metadata_def comp_def case_prod_unfold)
  have all: "filter (\<lambda>(k, v). present v) ?m = ?m"
    by (auto simp: as_metadata_def present_def filter_id_conv)
  have "createMetadata ?m =
        Inr (map (\<lambda>k. (k, ToString (get_prop ?m k)))
               (js_key_order (map fst (filter (\<lambda>(k, v). present v) ?m))))"
  proof (rule createMetadata_small)
    show "distinct (map fst ?m)" using d by (simp only: keys)
    show "length (filter (\<lambda>(k, v). present v) ?m) \<le> 50"
      using b by (simp add: all) (simp add: as_metadata_def within_limits_def)
    show "\<forall>(k, v) \<in> set ?m. present v \<longrightarrow> length k \<le> 40 \<and> length (ToString v) \<le> 500"
      using b by (auto simp: as_metadata_def within_limits_def list_all_iff)
  qed
  also have "js_key_order (map fst (filter (\<lambda>(k, v). present v) ?m)) = map fst r"
    using o by (simp only: all keys js_key_order_ordered)
  also have "map (\<lambda>k. (k, ToString (get_prop ?m k))) (map fst r) = map (\<lambda>p. p) r"
  proof (simp only: map_map, rule map_cong [OF refl])
    fix p assume "p \<in> set r"
    moreover obtain k s where p: "p = (k, s)" by (cases p)
    ultimately have "get_prop ?m k = JStr s"
      using d by (intro get_prop_as_metadata) simp_all
    then show "((\<lambda>k. (k, ToString (get_prop ?m k))) \<circ> fst) p = p"
      by (simp add: p)
  qed
  finally show ?thesis by simp
qed

lemma js_ordered_js_key_order:
  assumes "distinct ks"
  shows "js_ordered (js_key_order ks)"
proof -
  let ?I = "sort_key dec_val (filter is_array_index ks)"
  let ?N = "filter (\<lambda>k. \<not> is_array_index k) ks"
  have idx: "\<forall>k \<in> set ?I. is_array_index k" by simp
  then have "inj_on dec_val (set ?I)" by (rule inj_on_dec_val)
  moreover have "distinct ?I" using assms by simp
  ultimately have "distinct (map dec_val ?I)" by (simp add: distinct_map)
  moreover have "sorted (map dec_val ?I)" by (rule sorted_sort_key)
  ultimately have "sorted_wrt (<) (map dec_val ?I)"
    by (simp add: strict_sorted_iff)
  then have lt: "sorted_wrt (\<lambda>x y. dec_val x < dec_val y) ?I"
    by (simp only: sorted_wrt_map)
  have i: "sorted_wrt key_before ?I"
  proof (rule sorted_wrt_mono_rel [OF _ lt])
    fix x y assume "x \<in> set ?I" "y \<in> set ?I" "dec_val x < dec_val y"
    then show "key_before x y" by (simp add: key_before_def)
  qed
  have named: "\<not> is_array_index y" if "y \<in> set ?N" for y
    using that by simp
  have t: "sorted_wrt (\<lambda>_ _. True) ?N" by simp
  have n: "sorted_wrt key_before ?N"
  proof (rule sorted_wrt_mono_rel [OF _ t])
    fix x y assume "y \<in> set ?N"
    then show "key_before x y" by (simp add: key_before_def)
  qed
  have c: "\<forall>x \<in> set ?I. \<forall>y \<in> set ?N. key_before x y"
    by (simp add: key_before_def)
  show ?thesis
    unfolding js_ordered_def js_key_order_def sorted_wrt_append
    using i n c by (intro conjI)
qed

text \<open>
  C8: for every mapping whose values are all strings and which is within the three limits,
  applying \<open>createMetadata\<close> to the result of \<open>createMetadata\<close> gives that result again.
\<close>

theorem createMetadata_idempotent:
  assumes d: "distinct (map fst m)"
    and s: "list_all (\<lambda>(k, v). is_string v) m"
    and b: "within_limits (map (\<lambda>(k, v). (k, ToString v)) m)"
  shows "\<exists>r. createMetadata m = Inr r \<and> createMetadata (as_metadata r) = Inr r"
proof -
  let ?K = "js_key_order (map fst m)"
  let ?r = "map (\<lambda>k. (k, ToString (get_prop m k))) ?K"
  from s have all: "filter (\<lambda>(k, v). present v) m = m"
    by (auto simp: filter_id_conv list_all_iff dest: is_string_present)
  from b have len: "length m \<le> 50"
    and small: "\<forall>(k, v) \<in> set m. length k \<le> 40 \<and> length (ToString v) \<le> 500"
    by (auto simp: within_limits_def list_all_iff)
  have "createMetadata m =
        Inr (map (\<lambda>k. (k, ToString (get_prop m k)))
               (js_key_order (map fst (filter (\<lambda>(k, v). present v) m))))"
    using d by (rule createMetadata_small) (use len small in \<open>auto simp: all\<close>)
  then have first: "createMetadata m = Inr ?r"
    by (simp only: all)
  have keys: "map fst ?r = ?K"
    by (simp add: comp_def)
  have "within_limits ?r"
  proof -
    have "length k \<le> 40 \<and> length (ToString (get_prop m k)) \<le> 500" if "k \<in> set ?K" for k
    proof -
      from that have "k \<in> fst ` set m" by (simp add: set_js_key_order)
      then obtain v where kv: "(k, v) \<in> set m" by auto
      with d have "map_of m k = Some v" by simp
      then have "get_prop m k = v" by (simp add: get_prop_def)
      with small kv show ?thesis by auto
    qed
    then show ?thesis
      using len by (simp add: within_limits_def list_all_iff length_js_key_order)
  qed
  moreover have "distinct (map fst ?r)"
    using d by (simp only: keys distinct_js_key_order)
  moreover have "js_ordered (map fst ?r)"
    using d by (simp only: keys js_ordered_js_key_order)
  ultimately have "createMetadata (as_metadata ?r) = Inr ?r"
    by (intro createMetadata_fixed)
  with first show ?thesis by blast
qed

theorem createMetadata_idempotent_witness:
  "distinct (map fst [(''tenantId'', JStr ''tenant_123''), (''points'', JStr ''500'')]) \<and>
   list_all (\<lambda>(k, v). is_string v) [(''tenantId'', JStr ''tenant_123''), (''points'', JStr ''500'')] \<and>
   within_limits (map (\<lambda>(k, v). (k, ToString v))
     [(''tenantId'', JStr ''tenant_123''), (''points'', JStr ''500'')]) \<and>
   (\<exists>r. createMetadata [(''tenantId'', JStr ''tenant_123''), (''points'', JStr ''500'')] = Inr r \<and>
        createMetadata (as_metadata r) = Inr r)"
  using createMetadata_idempotent [of "[(''tenantId'', JStr ''tenant_123''), (''points'', JStr ''500'')]"]
  by (simp add: within_limits_def)

section \<open>More than 50 entries\<close>

lemma show_nat_digits: "set (show_nat n) \<subseteq> set ''0123456789''"
proof -
  define D where "D = set ''0123456789''"
  have d: "''0123456789'' ! i \<in> D" if "i < 10" for i
    unfolding D_def by (rule nth_mem) (use that in simp)
  have "set (show_nat n) \<subseteq> D"
  proof (induction n rule: show_nat.induct)
    case (1 n)
    show ?case
    proof (cases "n < 10")
      case True
      then have "show_nat n = [''0123456789'' ! n]"
        by (simp add: show_nat.simps)
      with d [OF True] show ?thesis by simp
    next
      case False
      then have "show_nat n = show_nat (n div 10) @ [''0123456789'' ! (n mod 10)]"
        by (subst show_nat.simps) simp
      moreover have "''0123456789'' ! (n mod 10) \<in> D"
        by (rule d) simp
      moreover have "set (show_nat (n div 10)) \<subseteq> D"
        using False by (rule 1)
      ultimately show ?thesis by simp
    qed
  qed
  then show ?thesis by (simp only: D_def)
qed

lemma array_index_digits: "is_array_index k \<Longrightarrow> set k \<subseteq> set ''0123456789''"
  by (metis is_array_index_def show_nat_digits)

lemma js_ordered_named: "\<forall>k \<in> set ks. \<not> is_array_index k \<Longrightarrow> js_ordered ks"
proof -
  assume named: "\<forall>k \<in> set ks. \<not> is_array_index k"
  have t: "sorted_wrt (\<lambda>_ _. True) ks" by simp
  show ?thesis
    unfolding js_ordered_def
  proof (rule sorted_wrt_mono_rel [OF _ t])
    fix x y assume "y \<in> set ks"
    with named show "key_before x y" by (simp add: key_before_def)
  qed
qed

lemma k_keys_object:
  "js_object (map (\<lambda>n. (replicate (Suc n) (CHR ''k''), v)) [0..<c])"
proof -
  have "inj_on (\<lambda>n. replicate (Suc n) (CHR ''k'')) A" for A
    by (rule inj_onI) (metis length_replicate nat.inject)
  then have "distinct (map (\<lambda>n. replicate (Suc n) (CHR ''k'')) [0..<c])"
    by (simp add: distinct_map)
  moreover have "\<not> is_array_index (replicate (Suc n) (CHR ''k''))" for n
  proof
    assume "is_array_index (replicate (Suc n) (CHR ''k''))"
    then have "set (replicate (Suc n) (CHR ''k'')) \<subseteq> set ''0123456789''"
      by (rule array_index_digits)
    then show False by simp
  qed
  then have "js_ordered (map (\<lambda>n. replicate (Suc n) (CHR ''k'')) [0..<c])"
    by (intro js_ordered_named) auto
  ultimately show ?thesis
    by (simp add: js_object_def comp_def)
qed

text \<open>
  C3 says that the result is within the three limits for every input. With 51 entries
  \<open>createMetadata\<close> returns from the branch \<^verbatim>\<open>keys.length > 50\<close> with the first 50
  entries as they are, before the loop that truncates keys and values: for the keys
  \<^verbatim>\<open>k\<close>, \<^verbatim>\<open>kk\<close>, ... of 1 to 51 characters the result has keys of up to 50 characters.
\<close>

theorem createMetadata_skips_truncation:
  "createMetadata (map (\<lambda>n. (replicate (Suc n) (CHR ''k''), JStr ''v'')) [0..<51]) =
     Inr (map (\<lambda>n. (replicate (Suc n) (CHR ''k''), ''v'')) [0..<50]) \<and>
   \<not> within_limits (map (\<lambda>n. (replicate (Suc n) (CHR ''k''), ''v'')) [0..<50])"
proof -
  let ?m = "map (\<lambda>n. (replicate (Suc n) (CHR ''k''), JStr ''v'')) [0..<51]"
  have all: "filter (\<lambda>(k, v). present v) ?m = ?m"
    by (simp add: filter_id_conv present_def del: upt_Suc)
  have "50 < length ?m" by simp
  then have "50 < length (filter (\<lambda>(k, v). present v) ?m)"
    by (simp only: all)
  with k_keys_object have "createMetadata ?m = Inr (take 50 (spec_filter ?m))"
    by (rule createMetadata_over_50)
  also have "spec_filter ?m = map (\<lambda>n. (replicate (Suc n) (CHR ''k''), ''v'')) [0..<51]"
    unfolding spec_filter_def all by (simp add: comp_def del: upt_Suc)
  also have "take 50 \<dots> = map (\<lambda>n. (replicate (Suc n) (CHR ''k''), ''v'')) [0..<50]"
    by (simp add: take_map del: upt_Suc)
  finally have r: "createMetadata ?m = Inr (map (\<lambda>n. (replicate (Suc n) (CHR ''k''), ''v'')) [0..<50])" .
  have "\<not> within_limits (map (\<lambda>n. (replicate (Suc n) (CHR ''k''), ''v'')) [0..<50])"
    unfolding within_limits_def list_all_iff by (auto intro!: bexI [where x = 49])
  with r show ?thesis ..
qed

section \<open>mergeMetadata\<close>







end
